theory Spec2Isabelle
  imports Main
begin

section \<open>Raw metrics of radon: a shallow embedding of \<^verbatim>\<open>radon/raw.py\<close>\<close>

text \<open>
  The module counts lines of a Python source text: logical lines, source lines, comment
  lines, lines of multi-line strings, blank lines and single-line comments. It reads the
  text through the standard library: \<^verbatim>\<open>str.splitlines\<close>, \<^verbatim>\<open>str.strip\<close> and
  \<^verbatim>\<open>tokenize.generate_tokens\<close>. The first two are modelled below. The tokenizer is
  not part of the repository; every function that calls it takes it as the parameter
  \<open>generate\<close>, which stands for \<^verbatim>\<open>_generate\<close> of the module.
\<close>

subsection \<open>Tokens\<close>

text \<open>
  The token types of \<^verbatim>\<open>tokenize\<close> the module can meet. A token is the 5-tuple the
  tokenizer yields: type, text, (start row, start column), (end row, end column) and the
  physical line.
\<close>

datatype tok_type =
  ENDMARKER | NAME | NUMBER | STRING | NEWLINE | INDENT | DEDENT | OP | ERRORTOKEN
  | COMMENT | NL

type_synonym token = "tok_type \<times> string \<times> (int \<times> int) \<times> (int \<times> int) \<times> string"

abbreviation EM :: tok_type where
  "EM \<equiv> ENDMARKER"

text \<open>
  What \<^verbatim>\<open>list(tokenize.generate_tokens(...))\<close> does on a buffer: it returns the
  tokens, raises \<^verbatim>\<open>tokenize.TokenError\<close> (the buffer ends inside a string or a
  bracket), or raises something else (\<^verbatim>\<open>IndentationError\<close>, for one).
\<close>

datatype tokenized = Tokens "token list" | TokenError | Raised string

text \<open>The exceptions of the module, as values.\<close>

datatype error = SyntaxError int | IndexError | ValueError | StopIteration | Uncaught string

subsection \<open>The strings of Python\<close>

text \<open>
  Source texts are strings of code points below 256. \<^verbatim>\<open>str.isspace\<close> holds there
  for the code points 9 to 13, 28 to 32, 133 and 160; \<^verbatim>\<open>str.splitlines\<close> breaks a
  line at 10, 11, 12, 13, 28, 29, 30 and 133, and takes a carriage return followed by a
  line feed for one break.
\<close>

definition isspace :: "char \<Rightarrow> bool" where
  "isspace c = (of_char c \<in> set [9, 10, 11, 12, 13, 28, 29, 30, 31, 32, 133, 160 :: nat])"

definition is_linebreak :: "char \<Rightarrow> bool" where
  "is_linebreak c = (of_char c \<in> set [10, 11, 12, 13, 28, 29, 30, 133 :: nat])"

definition strip :: "string \<Rightarrow> string" where
  "strip s = rev (dropWhile isspace (rev (dropWhile isspace s)))"

text \<open>
  \<open>splitlines_from after_cr cur s\<close> scans \<open>s\<close>; \<open>cur\<close> is the line read so
  far, \<open>after_cr\<close> tells that the last character was a carriage return, so that a
  line feed that follows belongs to the same break. A last line without a break is a
  line; an empty rest after the last break is not.
\<close>

fun splitlines_from :: "bool \<Rightarrow> string \<Rightarrow> string \<Rightarrow> string list" where
  "splitlines_from after_cr cur [] = (if cur = [] then [] else [cur])"
| "splitlines_from after_cr cur (c # s) =
     (if after_cr \<and> c = CHR 0x0A then splitlines_from False cur s
      else if is_linebreak c then cur # splitlines_from (c = CHR 0x0D) [] s
      else splitlines_from False (cur @ [c]) s)"

definition splitlines :: "string \<Rightarrow> string list" where
  "splitlines s = splitlines_from False [] s"

subsection \<open>The helpers\<close>

text \<open>\<^verbatim>\<open>_less_tokens\<close>: the tokens whose type is not in \<open>remove\<close>.\<close>

fun less_tokens :: "token list \<Rightarrow> tok_type list \<Rightarrow> token list" where
  "less_tokens [] remove = []"
| "less_tokens (values # tokens) remove =
     (if fst values \<in> set remove then less_tokens tokens remove
      else values # less_tokens tokens remove)"

text \<open>
  \<^verbatim>\<open>_find\<close>: the loop runs over the reversed tokens with their index; the first
  hit at \<open>index\<close> gives \<^verbatim>\<open>len(tokens) - index - 1\<close>, no hit raises ValueError.
\<close>

fun find_enum :: "nat \<Rightarrow> token list \<Rightarrow> nat \<Rightarrow> tok_type \<Rightarrow> string \<Rightarrow> error + int" where
  "find_enum index [] n token value = Inl ValueError"
| "find_enum index (token_values # rest) n token value =
     (if (token, value) = (fst token_values, fst (snd token_values))
      then Inr (int n - int index - 1)
      else find_enum (Suc index) rest n token value)"

definition find_tok :: "token list \<Rightarrow> tok_type \<Rightarrow> string \<Rightarrow> error + int" where
  "find_tok tokens token value = find_enum 0 (rev tokens) (length tokens) token value"

text \<open>
  \<^verbatim>\<open>_split_tokens\<close>: \<open>res\<close> starts as \<^verbatim>\<open>[[]]\<close>; a separator appends an empty
  segment, any other token goes to the end of the last segment.
\<close>

fun split_loop :: "token list list \<Rightarrow> token list \<Rightarrow> tok_type \<Rightarrow> string \<Rightarrow> token list list" where
  "split_loop res [] token value = res"
| "split_loop res (token_values # tokens) token value =
     (if (token, value) = (fst token_values, fst (snd token_values))
      then split_loop (res @ [[]]) tokens token value
      else split_loop (butlast res @ [last res @ [token_values]]) tokens token value)"

definition split_tokens :: "token list \<Rightarrow> tok_type \<Rightarrow> string \<Rightarrow> token list list" where
  "split_tokens tokens token value = split_loop [[]] tokens token value"

subsection \<open>Assembling a lexical unit\<close>

text \<open>
  \<^verbatim>\<open>_get_all_tokens\<close>: \<open>line\<close> is the buffer, \<open>used_lines\<close> the lines it is made
  of, \<open>lines\<close> what the shared iterator still holds. The result is the tokens, the
  lines used and the rest of the iterator. \<^verbatim>\<open>next(lines)\<close> on an empty iterator
  raises StopIteration; an exception of the tokenizer other than TokenError is not caught.
\<close>

fun get_all_tokens ::
  "(string \<Rightarrow> tokenized) \<Rightarrow> string \<Rightarrow> string list \<Rightarrow> string list
     \<Rightarrow> error + (token list \<times> string list \<times> string list)" where
  "get_all_tokens generate line used_lines [] =
     (case generate line of
        Raised e \<Rightarrow> Inl (Uncaught e)
      | TokenError \<Rightarrow> Inl StopIteration
      | Tokens tokens \<Rightarrow>
          if \<not> list_ex (\<lambda>t. fst t = ERRORTOKEN) tokens then Inr (tokens, used_lines, [])
          else Inl StopIteration)"
| "get_all_tokens generate line used_lines (next_line # lines) =
     (case generate line of
        Raised e \<Rightarrow> Inl (Uncaught e)
      | TokenError \<Rightarrow>
          get_all_tokens generate (line @ [CHR 0x0A] @ next_line) (used_lines @ [next_line]) lines
      | Tokens tokens \<Rightarrow>
          if \<not> list_ex (\<lambda>t. fst t = ERRORTOKEN) tokens
          then Inr (tokens, used_lines, next_line # lines)
          else get_all_tokens generate (line @ [CHR 0x0A] @ next_line)
                 (used_lines @ [next_line]) lines)"

subsection \<open>Logical lines\<close>

text \<open>
  \<^verbatim>\<open>aux\<close> of \<^verbatim>\<open>_logical\<close>. The comparison
  \<^verbatim>\<open>token_pos == len(processed) - 2\<close> is one of integers: the right side is
  negative for a segment of one token.
\<close>

definition aux :: "token list \<Rightarrow> int" where
  "aux sub_tokens =
     (let processed = less_tokens sub_tokens [COMMENT] in
      case find_tok processed OP '':'' of
        Inr token_pos \<Rightarrow> 2 - (if token_pos = int (length processed) - 2 then 1 else 0)
      | Inl _ \<Rightarrow> (if less_tokens processed [NL, EM] = [] then 0 else 1))"

definition logical :: "token list \<Rightarrow> int" where
  "logical tokens = sum_list (map aux (split_tokens tokens OP '';''))"

subsection \<open>The analysis\<close>

text \<open>The six counters of \<^verbatim>\<open>analyze\<close> and the record it returns.\<close>

record counters =
  c_lloc :: int
  c_comments :: int
  c_single_comments :: int
  c_multi :: int
  c_blank :: int
  c_sloc :: int

record Module =
  loc :: int
  lloc :: int
  sloc :: int
  comments :: int
  multi :: int
  blank :: int
  single_comments :: int

text \<open>The loop over the tokens that counts the comments.\<close>

fun count_comments :: "token list \<Rightarrow> counters \<Rightarrow> counters" where
  "count_comments [] c = c"
| "count_comments (token_values # tokens) c =
     count_comments tokens
       (case token_values of (token_type, _, (start_row, start_col), (end_row, end_col), _) \<Rightarrow>
          if token_type = COMMENT then
            (let c1 = (if start_col = 0
                       then c\<lparr>c_single_comments :=
                                c_single_comments c + (end_row - start_row + 1)\<rparr>
                       else c)
             in c1\<lparr>c_comments := c_comments c1 + 1\<rparr>)
          else c)"

text \<open>
  The docstring test. \<^verbatim>\<open>tokens[0]\<close> and \<^verbatim>\<open>tokens[1]\<close> raise IndexError on a
  list that is too short; \<^verbatim>\<open>tokens[:-2]\<close> is the list without its last two tokens,
  \<^verbatim>\<open>tokens[-2]\<close> the second to last.
\<close>

definition count_docstring :: "token list \<Rightarrow> string list \<Rightarrow> counters \<Rightarrow> error + counters" where
  "count_docstring tokens parsed_lines c =
     (case tokens of
        [] \<Rightarrow> Inl IndexError
      | t0 # ts \<Rightarrow>
          if fst t0 = STRING then
            (case ts of
               [] \<Rightarrow> Inl IndexError
             | t1 # _ \<Rightarrow>
                 if fst t1 = ENDMARKER
                    \<or> list_all (\<lambda>t. fst t \<in> set [STRING, NL]) (take (length tokens - 2) tokens)
                 then
                   (case (t0, tokens ! (length tokens - 2)) of
                      ((_, _, (start_row, start_col), _, _), (_, _, _, (end_row, end_col), _)) \<Rightarrow>
                        if start_col = 0 then
                          (if end_row = start_row
                           then Inr (c\<lparr>c_single_comments := c_single_comments c + 1\<rparr>)
                           else Inr (c\<lparr>c_multi := c_multi c
                                  + int (length (filter (\<lambda>l. l \<noteq> []) parsed_lines))\<rparr>))
                        else Inr c)
                 else Inr c)
          else Inr c)"

text \<open>The loop over the lines used: a non-empty line is a source line.\<close>

fun count_lines :: "string list \<Rightarrow> counters \<Rightarrow> counters" where
  "count_lines [] c = c"
| "count_lines (parsed_line # parsed_lines) c =
     count_lines parsed_lines
       (if parsed_line \<noteq> [] then c\<lparr>c_sloc := c_sloc c + 1\<rparr>
        else c\<lparr>c_blank := c_blank c + 1\<rparr>)"

text \<open>The loop over the segments between semicolons.\<close>

fun count_logical :: "token list list \<Rightarrow> counters \<Rightarrow> counters" where
  "count_logical [] c = c"
| "count_logical (sub_tokens # segments) c =
     count_logical segments (c\<lparr>c_lloc := c_lloc c + logical sub_tokens\<rparr>)"

text \<open>The body of the loop of \<^verbatim>\<open>analyze\<close>, after the unit has been assembled.\<close>

definition classify :: "token list \<Rightarrow> string list \<Rightarrow> counters \<Rightarrow> error + counters" where
  "classify tokens parsed_lines c =
     (case count_docstring tokens parsed_lines (count_comments tokens c) of
        Inl e \<Rightarrow> Inl e
      | Inr c' \<Rightarrow>
          Inr (count_logical (split_tokens tokens OP '';'') (count_lines parsed_lines c')))"

lemma get_all_tokens_rest:
  "get_all_tokens generate line used_lines lines = Inr (tokens, parsed_lines, rest)
   \<Longrightarrow> length rest \<le> length lines"
proof (induction lines arbitrary: line used_lines)
  case Nil
  then show ?case by (auto split: tokenized.splits if_splits)
next
  case (Cons next_line lines)
  show ?case
  proof (cases "\<exists>tokens. generate line = Tokens tokens
                  \<and> \<not> list_ex (\<lambda>t. fst t = ERRORTOKEN) tokens")
    case True
    with Cons.prems show ?thesis by auto
  next
    case False
    with Cons.prems have
      "get_all_tokens generate (line @ [CHR 0x0A] @ next_line) (used_lines @ [next_line]) lines
         = Inr (tokens, parsed_lines, rest)"
      by (auto split: tokenized.splits if_splits)
    from Cons.IH [OF this] show ?thesis by simp
  qed
qed

text \<open>
  The loop of \<^verbatim>\<open>analyze\<close>. \<open>lineno\<close> is the counter of \<^verbatim>\<open>enumerate(lines, 1)\<close>:
  it grows by one with each turn of the loop. The lines taken inside
  \<^verbatim>\<open>_get_all_tokens\<close> come from the same iterator, so the loop goes on with what
  is left of it.
\<close>

function analyze_loop ::
  "(string \<Rightarrow> tokenized) \<Rightarrow> int \<Rightarrow> counters \<Rightarrow> string list \<Rightarrow> error + counters" where
  "analyze_loop generate lineno c [] = Inr c"
| "analyze_loop generate lineno c (line # lines) =
     (case get_all_tokens generate line [line] lines of
        Inl StopIteration \<Rightarrow> Inl (SyntaxError lineno)
      | Inl e \<Rightarrow> Inl e
      | Inr (tokens, parsed_lines, rest) \<Rightarrow>
          (case classify tokens parsed_lines c of
             Inl e \<Rightarrow> Inl e
           | Inr c' \<Rightarrow> analyze_loop generate (lineno + 1) c' rest))"
  by pat_completeness auto
termination
  by (relation "measure (\<lambda>(generate, lineno, c, lines). length lines)")
     (auto dest: get_all_tokens_rest)

definition analyze :: "(string \<Rightarrow> tokenized) \<Rightarrow> string \<Rightarrow> error + Module" where
  "analyze generate source =
     (case analyze_loop generate 1
             \<lparr>c_lloc = 0, c_comments = 0, c_single_comments = 0, c_multi = 0, c_blank = 0,
              c_sloc = 0\<rparr>
             (map strip (splitlines source)) of
        Inl e \<Rightarrow> Inl e
      | Inr c \<Rightarrow>
          Inr \<lparr>loc = c_sloc c - c_multi c - c_single_comments c, lloc = c_lloc c,
               sloc = c_sloc c, comments = c_comments c, multi = c_multi c,
               blank = c_blank c, single_comments = c_single_comments c\<rparr>)"

subsection \<open>The tokenizer on some buffers\<close>

text \<open>
  The replies of \<^verbatim>\<open>tokenize.generate_tokens\<close> of CPython 3.11 on the buffers that
  the examples below assemble, token by token. The last three buffers end inside a string
  or an open bracket. No statement is made about any other buffer.
\<close>

definition tokenize_table :: "string \<Rightarrow> tokenized" where
  \<open>tokenize_table buffer =
     (if buffer = '''' then
        Tokens [(ENDMARKER, '''', (1, 0), (1, 0), '''')]
      else if buffer = ''# comment'' then
        Tokens [(COMMENT, ''# comment'', (1, 0), (1, 9), ''# comment''),
                (NL, '''', (1, 9), (1, 9), ''# comment''),
                (ENDMARKER, '''', (2, 0), (2, 0), '''')]
      else if buffer = ''x = 1'' then
        Tokens [(NAME, ''x'', (1, 0), (1, 1), ''x = 1''),
                (OP, ''='', (1, 2), (1, 3), ''x = 1''),
                (NUMBER, ''1'', (1, 4), (1, 5), ''x = 1''),
                (NEWLINE, '''', (1, 5), (1, 6), ''''),
                (ENDMARKER, '''', (2, 0), (2, 0), '''')]
      else if buffer = ''if True: x = 1'' then
        Tokens [(NAME, ''if'', (1, 0), (1, 2), ''if True: x = 1''),
                (NAME, ''True'', (1, 3), (1, 7), ''if True: x = 1''),
                (OP, '':'', (1, 7), (1, 8), ''if True: x = 1''),
                (NAME, ''x'', (1, 9), (1, 10), ''if True: x = 1''),
                (OP, ''='', (1, 11), (1, 12), ''if True: x = 1''),
                (NUMBER, ''1'', (1, 13), (1, 14), ''if True: x = 1''),
                (NEWLINE, '''', (1, 14), (1, 15), ''''),
                (ENDMARKER, '''', (2, 0), (2, 0), '''')]
      else if buffer = ''a = 1; b = 2'' then
        Tokens [(NAME, ''a'', (1, 0), (1, 1), ''a = 1; b = 2''),
                (OP, ''='', (1, 2), (1, 3), ''a = 1; b = 2''),
                (NUMBER, ''1'', (1, 4), (1, 5), ''a = 1; b = 2''),
                (OP, '';'', (1, 5), (1, 6), ''a = 1; b = 2''),
                (NAME, ''b'', (1, 7), (1, 8), ''a = 1; b = 2''),
                (OP, ''='', (1, 9), (1, 10), ''a = 1; b = 2''),
                (NUMBER, ''2'', (1, 11), (1, 12), ''a = 1; b = 2''),
                (NEWLINE, '''', (1, 12), (1, 13), ''''),
                (ENDMARKER, '''', (2, 0), (2, 0), '''')]
      else if buffer = ''"""a\<newline>b\<newline>c"""'' then
        Tokens [(STRING, ''"""a\<newline>b\<newline>c"""'', (1, 0), (3, 4), ''"""a\<newline>b\<newline>c"""''),
                (NEWLINE, '''', (3, 4), (3, 5), ''''),
                (ENDMARKER, '''', (4, 0), (4, 0), '''')]
      else if buffer = ''(\<newline>)'' then
        Tokens [(OP, ''('', (1, 0), (1, 1), ''(\<newline>''),
                (NL, ''\<newline>'', (1, 1), (1, 2), ''(\<newline>''),
                (OP, '')'', (2, 0), (2, 1), '')''),
                (NEWLINE, '''', (2, 1), (2, 2), ''''),
                (ENDMARKER, '''', (3, 0), (3, 0), '''')]
      else if buffer \<in> set [''"""a'', ''"""a\<newline>b'', ''(''] then TokenError
      else Raised ''not tabulated'')\<close>

subsection \<open>What the properties speak of\<close>

text \<open>
  A tokenizer keeps the rows of its tokens in order when no token ends on a row before
  the one it starts on.
\<close>

definition rows_in_order :: "(string \<Rightarrow> tokenized) \<Rightarrow> bool" where
  "rows_in_order generate =
     (\<forall>buffer tokens. generate buffer = Tokens tokens \<longrightarrow>
        list_all (\<lambda>(_, _, (start_row, _), (end_row, _), _). start_row \<le> end_row) tokens)"

text \<open>
  The buffers that can reach the tokenizer: a line, joined by line feeds with any number
  of the lines that follow it.
\<close>

fun joins_from :: "string \<Rightarrow> string list \<Rightarrow> string list" where
  "joins_from line [] = [line]"
| "joins_from line (next_line # lines) =
     line # joins_from (line @ [CHR 0x0A] @ next_line) lines"

fun buffers :: "string list \<Rightarrow> string list" where
  "buffers [] = []"
| "buffers (line # lines) = joins_from line lines @ buffers lines"

text \<open>
  Two lines differ only in leading and trailing whitespace when they are the same core
  between margins of whitespace.
\<close>

definition differ_in_margins :: "string \<Rightarrow> string \<Rightarrow> bool" where
  "differ_in_margins a b =
     (\<exists>core before after before' after'.
        list_all isspace before \<and> list_all isspace after
        \<and> list_all isspace before' \<and> list_all isspace after'
        \<and> a = before @ core @ after \<and> b = before' @ core @ after')"

text \<open>
  The two tokens that the count of logical lines looks for: the colon operator, which
  opens the body of a compound statement, and the semicolon, which separates statements.
\<close>

definition colon_token :: "token \<Rightarrow> bool" where
  "colon_token t = ((fst t, fst (snd t)) = (OP, '':''))"

definition separator_token :: "token \<Rightarrow> bool" where
  "separator_token t = ((fst t, fst (snd t)) = (OP, '';''))"

text \<open>
  The equation that the docstring of \<^verbatim>\<open>analyze\<close> states of the record:
  \<^verbatim>\<open>sloc + blanks + multi + single_comments = loc\<close>.
\<close>

definition documented_equation :: "Module \<Rightarrow> bool" where
  "documented_equation m = (sloc m + blank m + multi m + single_comments m = loc m)"

section \<open>Properties\<close>

subsection \<open>The derived field\<close>

text \<open>
  C1. Whenever \<^verbatim>\<open>analyze\<close> returns a record, the loop has ended with final counters
  \<open>c\<close>; the fields \<open>sloc\<close>, \<open>multi\<close> and \<open>single_comments\<close> of the record are
  the counters of these names, and \<open>loc\<close> is \<open>sloc - multi - single_comments\<close>.
\<close>

theorem analyze_loc_derivation:
  assumes "analyze generate source = Inr m"
  shows "\<exists>c. analyze_loop generate 1
               \<lparr>c_lloc = 0, c_comments = 0, c_single_comments = 0, c_multi = 0, c_blank = 0,
                c_sloc = 0\<rparr>
               (map strip (splitlines source)) = Inr c
             \<and> sloc m = c_sloc c \<and> multi m = c_multi c
             \<and> single_comments m = c_single_comments c
             \<and> loc m = c_sloc c - c_multi c - c_single_comments c
             \<and> loc m = sloc m - multi m - single_comments m"
  using assms by (auto simp: analyze_def split: sum.splits)

theorem analyze_loc_derivation_witness:
  \<open>analyze tokenize_table ''"""a\<newline>b\<newline>c"""''
     = Inr \<lparr>loc = 0, lloc = 1, sloc = 3, comments = 0, multi = 3, blank = 0,
            single_comments = 0\<rparr>
   \<and> loc \<lparr>loc = 0, lloc = 1, sloc = 3, comments = 0, multi = 3, blank = 0,
            single_comments = 0\<rparr> = 3 - 3 - 0\<close>
proof -
  have run: \<open>analyze tokenize_table ''"""a\<newline>b\<newline>c"""''
     = Inr \<lparr>loc = 0, lloc = 1, sloc = 3, comments = 0, multi = 3, blank = 0,
            single_comments = 0\<rparr>\<close>
    by code_simp
  from analyze_loc_derivation [OF run] run show ?thesis by simp
qed

subsection \<open>The equation of the docstring\<close>

text \<open>
  C2. The docstring of \<^verbatim>\<open>analyze\<close> says that
  \<open>sloc + blank + multi + single_comments = loc\<close> always holds. On a text of one
  statement and one blank line the record has \<open>sloc = 1\<close>, \<open>blank = 1\<close> and
  \<open>loc = 1\<close>: the equation fails.
\<close>

theorem documented_equation_fails:
  "analyze tokenize_table ''x = 1\<newline>\<newline>''
     = Inr \<lparr>loc = 1, lloc = 1, sloc = 1, comments = 0, multi = 0, blank = 1,
            single_comments = 0\<rparr>
   \<and> \<not> documented_equation \<lparr>loc = 1, lloc = 1, sloc = 1, comments = 0, multi = 0,
            blank = 1, single_comments = 0\<rparr>"
  by code_simp

subsection \<open>Every line is counted once\<close>

lemma get_all_tokens_lines:
  "get_all_tokens generate line used_lines lines = Inr (tokens, parsed_lines, rest)
   \<Longrightarrow> parsed_lines @ rest = used_lines @ lines \<and> (\<exists>buffer. generate buffer = Tokens tokens)"
proof (induction lines arbitrary: line used_lines)
  case Nil
  then show ?case by (auto split: tokenized.splits if_splits)
next
  case (Cons next_line lines)
  show ?case
  proof (cases "\<exists>tokens. generate line = Tokens tokens
                  \<and> \<not> list_ex (\<lambda>t. fst t = ERRORTOKEN) tokens")
    case True
    with Cons.prems show ?thesis by auto
  next
    case False
    with Cons.prems have
      "get_all_tokens generate (line @ [CHR 0x0A] @ next_line) (used_lines @ [next_line]) lines
         = Inr (tokens, parsed_lines, rest)"
      by (auto split: tokenized.splits if_splits)
    from Cons.IH [OF this] show ?thesis by simp
  qed
qed

lemma count_comments_fields:
  "c_sloc (count_comments tokens c) = c_sloc c"
  "c_blank (count_comments tokens c) = c_blank c"
  "c_multi (count_comments tokens c) = c_multi c"
  "c_lloc (count_comments tokens c) = c_lloc c"
  by (induction tokens arbitrary: c; simp add: Let_def split: prod.splits)+

lemma count_comments_single:
  assumes "list_all (\<lambda>(_, _, (start_row, _), (end_row, _), _). start_row \<le> end_row) tokens"
  shows "c_single_comments c \<le> c_single_comments (count_comments tokens c)"
  using assms
proof (induction tokens arbitrary: c)
  case Nil
  then show ?case by simp
next
  case (Cons t tokens)
  from Cons.prems have rest:
    "list_all (\<lambda>(_, _, (start_row, _), (end_row, _), _). start_row \<le> end_row) tokens"
    by simp
  obtain ty tx sr sc er ec ln where t: "t = (ty, tx, (sr, sc), (er, ec), ln)"
    by (metis prod.exhaust)
  with Cons.prems have "sr \<le> er" by simp
  then show ?case
    using Cons.IH [OF rest] t
    by (simp add: Let_def order_trans [OF _ Cons.IH [OF rest]])
qed

lemma count_docstring_fields:
  assumes "count_docstring tokens parsed_lines c = Inr c'"
  shows "c_sloc c' = c_sloc c \<and> c_blank c' = c_blank c \<and> c_lloc c' = c_lloc c
    \<and> c_multi c \<le> c_multi c' \<and> c_single_comments c \<le> c_single_comments c'"
  using assms
  by (auto simp: count_docstring_def split: list.splits if_splits prod.splits)

lemma count_lines_fields:
  "c_sloc (count_lines parsed_lines c)
     = c_sloc c + int (length (filter (\<lambda>l. l \<noteq> []) parsed_lines))"
  "c_blank (count_lines parsed_lines c)
     = c_blank c + int (length (filter (\<lambda>l. l = []) parsed_lines))"
  "c_multi (count_lines parsed_lines c) = c_multi c"
  "c_single_comments (count_lines parsed_lines c) = c_single_comments c"
  "c_lloc (count_lines parsed_lines c) = c_lloc c"
  by (induction parsed_lines arbitrary: c; simp)+

lemma aux_range: "0 \<le> aux sub_tokens"
  by (simp add: aux_def Let_def split: sum.splits)

lemma logical_nonneg: "0 \<le> logical tokens"
  by (auto simp: logical_def aux_range intro!: sum_list_nonneg)

lemma count_logical_fields:
  "c_sloc (count_logical segments c) = c_sloc c"
  "c_blank (count_logical segments c) = c_blank c"
  "c_multi (count_logical segments c) = c_multi c"
  "c_single_comments (count_logical segments c) = c_single_comments c"
  by (induction segments arbitrary: c; simp)+

lemma count_logical_lloc: "c_lloc c \<le> c_lloc (count_logical segments c)"
proof (induction segments arbitrary: c)
  case Nil
  then show ?case by simp
next
  case (Cons s segments)
  have "c_lloc c \<le> c_lloc (c\<lparr>c_lloc := c_lloc c + logical s\<rparr>)"
    using logical_nonneg [of s] by simp
  also have "\<dots> \<le> c_lloc (count_logical segments (c\<lparr>c_lloc := c_lloc c + logical s\<rparr>))"
    by (rule Cons.IH)
  finally show ?case by simp
qed

lemma classify_fields:
  assumes "classify tokens parsed_lines c = Inr c'"
    and "list_all (\<lambda>(_, _, (start_row, _), (end_row, _), _). start_row \<le> end_row) tokens"
  shows "c_sloc c' = c_sloc c + int (length (filter (\<lambda>l. l \<noteq> []) parsed_lines))
    \<and> c_blank c' = c_blank c + int (length (filter (\<lambda>l. l = []) parsed_lines))
    \<and> c_multi c \<le> c_multi c' \<and> c_single_comments c \<le> c_single_comments c'
    \<and> c_lloc c \<le> c_lloc c'"
proof -
  from assms(1) obtain d where
    d: "count_docstring tokens parsed_lines (count_comments tokens c) = Inr d"
    and c': "c' = count_logical (split_tokens tokens OP '';'') (count_lines parsed_lines d)"
    by (auto simp: classify_def split: sum.splits)
  note doc = count_docstring_fields [OF d]
  have "c_single_comments c \<le> c_single_comments d"
    using count_comments_single [OF assms(2), of c] doc by simp
  moreover have "c_lloc c \<le> c_lloc c'"
    using count_logical_lloc [of "count_lines parsed_lines d" "split_tokens tokens OP '';''"]
      doc
    by (simp add: c' count_lines_fields count_comments_fields)
  ultimately show ?thesis
    using doc by (simp add: c' count_logical_fields count_lines_fields count_comments_fields)
qed

lemma analyze_loop_fields:
  assumes "rows_in_order generate"
    and "analyze_loop generate lineno c lines = Inr c'"
  shows "c_sloc c' = c_sloc c + int (length (filter (\<lambda>l. l \<noteq> []) lines))
    \<and> c_blank c' = c_blank c + int (length (filter (\<lambda>l. l = []) lines))
    \<and> c_multi c \<le> c_multi c' \<and> c_single_comments c \<le> c_single_comments c'
    \<and> c_lloc c \<le> c_lloc c'"
  using assms(2,1)
proof (induction generate lineno c lines rule: analyze_loop.induct)
  case (1 generate lineno c)
  then show ?case by simp
next
  case (2 generate lineno c line lines)
  from "2.prems"(1) obtain tokens parsed_lines rest d where
    got: "get_all_tokens generate line [line] lines = Inr (tokens, parsed_lines, rest)"
    and cls: "classify tokens parsed_lines c = Inr d"
    and loop: "analyze_loop generate (lineno + 1) d rest = Inr c'"
    by (auto split: sum.splits error.splits prod.splits)
  from get_all_tokens_lines [OF got] obtain buffer where
    split: "parsed_lines @ rest = line # lines" and buffer: "generate buffer = Tokens tokens"
    by auto
  from "2.prems"(2) buffer have rows:
    "list_all (\<lambda>(_, _, (start_row, _), (end_row, _), _). start_row \<le> end_row) tokens"
    by (simp add: rows_in_order_def)
  note step = classify_fields [OF cls rows]
  note rest = "2.IH" [OF got refl refl cls loop "2.prems"(2)]
  have "length (filter (\<lambda>l. l \<noteq> []) (line # lines))
      = length (filter (\<lambda>l. l \<noteq> []) parsed_lines) + length (filter (\<lambda>l. l \<noteq> []) rest)"
    and "length (filter (\<lambda>l. l = []) (line # lines))
      = length (filter (\<lambda>l. l = []) parsed_lines) + length (filter (\<lambda>l. l = []) rest)"
    unfolding split [symmetric] by simp_all
  with step rest show ?case by simp
qed

lemma rows_in_order_table: "rows_in_order tokenize_table"
  by (auto simp: rows_in_order_def tokenize_table_def split: if_splits)

text \<open>
  C3. With a tokenizer that keeps the rows of its tokens in order, a record returned by
  \<^verbatim>\<open>analyze\<close> has no negative count among \<open>sloc\<close>, \<open>blank\<close>, \<open>multi\<close>,
  \<open>single_comments\<close> and \<open>lloc\<close>; \<open>sloc\<close> is the number of physical lines that
  are not empty once stripped, \<open>blank\<close> the number of the others, and together they are
  the number of physical lines of the text.
\<close>

theorem analyze_counts_lines:
  assumes "rows_in_order generate" and "analyze generate source = Inr m"
  shows "0 \<le> sloc m \<and> 0 \<le> blank m \<and> 0 \<le> multi m \<and> 0 \<le> single_comments m \<and> 0 \<le> lloc m
    \<and> sloc m = int (length (filter (\<lambda>l. strip l \<noteq> []) (splitlines source)))
    \<and> blank m = int (length (filter (\<lambda>l. strip l = []) (splitlines source)))
    \<and> sloc m + blank m = int (length (splitlines source))"
proof -
  define c0 where "c0 = \<lparr>c_lloc = 0, c_comments = 0, c_single_comments = 0, c_multi = 0,
    c_blank = 0, c_sloc = 0\<rparr>"
  from assms(2) obtain c where
    loop: "analyze_loop generate 1 c0 (map strip (splitlines source)) = Inr c"
    and m: "m = \<lparr>loc = c_sloc c - c_multi c - c_single_comments c, lloc = c_lloc c,
               sloc = c_sloc c, comments = c_comments c, multi = c_multi c,
               blank = c_blank c, single_comments = c_single_comments c\<rparr>"
    by (auto simp: analyze_def c0_def split: sum.splits)
  note fields = analyze_loop_fields [OF assms(1) loop]
  have s: "sloc m = int (length (filter (\<lambda>l. strip l \<noteq> []) (splitlines source)))"
    using fields by (simp add: m c0_def filter_map comp_def)
  have b: "blank m = int (length (filter (\<lambda>l. strip l = []) (splitlines source)))"
    using fields by (simp add: m c0_def filter_map comp_def)
  have "length (filter (\<lambda>l. strip l \<noteq> []) (splitlines source))
      + length (filter (\<lambda>l. strip l = []) (splitlines source)) = length (splitlines source)"
    using sum_length_filter_compl [of "\<lambda>l. strip l \<noteq> []" "splitlines source"] by simp
  with s b have total: "sloc m + blank m = int (length (splitlines source))"
    by linarith
  from fields have "0 \<le> multi m" "0 \<le> single_comments m" "0 \<le> lloc m"
    by (simp_all add: m c0_def)
  with s b total show ?thesis by simp
qed

theorem analyze_counts_lines_witness:
  "analyze tokenize_table ''# comment\<newline>\<newline>x = 1''
     = Inr \<lparr>loc = 1, lloc = 1, sloc = 2, comments = 1, multi = 0, blank = 1,
            single_comments = 1\<rparr>
   \<and> int (length (filter (\<lambda>l. strip l \<noteq> []) (splitlines ''# comment\<newline>\<newline>x = 1''))) = 2
   \<and> int (length (filter (\<lambda>l. strip l = []) (splitlines ''# comment\<newline>\<newline>x = 1''))) = 1
   \<and> int (length (splitlines ''# comment\<newline>\<newline>x = 1'')) = 3"
proof -
  have run: "analyze tokenize_table ''# comment\<newline>\<newline>x = 1''
     = Inr \<lparr>loc = 1, lloc = 1, sloc = 2, comments = 1, multi = 0, blank = 1,
            single_comments = 1\<rparr>"
    by code_simp
  from analyze_counts_lines [OF rows_in_order_table run] run show ?thesis by simp
qed

subsection \<open>The line number of a syntax error\<close>

text \<open>
  C4. The text has three physical lines: an open bracket, its closing bracket, and an open
  bracket that nothing closes. The first unit takes the lines 1 and 2; the unit that fails
  begins at line 3. The error that \<^verbatim>\<open>analyze\<close> raises carries 2, the count of
  the turns of its loop, and not the line number 3.
\<close>

theorem syntax_error_counts_units:
  "splitlines ''(\<newline>)\<newline>('' = [''('', '')'', ''('']
   \<and> fst (snd (projr (get_all_tokens tokenize_table ''('' [''(''] ['')'', ''(''])))
       = [''('', '')'']
   \<and> snd (snd (projr (get_all_tokens tokenize_table ''('' [''(''] ['')'', ''(''])))
       = [''('']
   \<and> get_all_tokens tokenize_table ''('' [''(''] [] = Inl StopIteration
   \<and> analyze tokenize_table ''(\<newline>)\<newline>('' = Inl (SyntaxError 2)"
  by code_simp

subsection \<open>The colon rule of the logical lines\<close>

lemma find_enum_shift:
  "find_enum (Suc index) rest (Suc n) token value = find_enum index rest n token value"
  by (induction rest arbitrary: index) auto

lemma find_tok_Nil: "find_tok [] token value = Inl ValueError"
  by (simp add: find_tok_def)

lemma find_tok_snoc:
  "find_tok (tokens @ [t]) token value =
     (if (token, value) = (fst t, fst (snd t)) then Inr (int (length tokens))
      else find_tok tokens token value)"
  by (simp add: find_tok_def find_enum_shift)

lemma find_tok_range:
  "find_tok tokens token value = Inr p \<Longrightarrow> 0 \<le> p \<and> p < int (length tokens)"
  by (induction tokens rule: rev_induct)
     (auto simp: find_tok_Nil find_tok_snoc split: if_splits)

lemma find_tok_found:
  "list_ex (\<lambda>t. (fst t, fst (snd t)) = (token, value)) tokens
   \<Longrightarrow> \<exists>p. find_tok tokens token value = Inr p"
  by (induction tokens rule: rev_induct)
     (auto simp: find_tok_Nil find_tok_snoc split: if_splits)

lemma aux_colon:
  assumes colon: "list_ex (\<lambda>t. (fst t, fst (snd t)) = (OP, '':''))
                    (less_tokens sub_tokens [COMMENT])"
  shows "aux sub_tokens =
     (if 2 \<le> length (less_tokens sub_tokens [COMMENT])
         \<and> (\<lambda>t. (fst t, fst (snd t)) = (OP, '':''))
              (less_tokens sub_tokens [COMMENT] ! (length (less_tokens sub_tokens [COMMENT]) - 2))
         \<and> \<not> (\<lambda>t. (fst t, fst (snd t)) = (OP, '':'')) (last (less_tokens sub_tokens [COMMENT]))
      then 1 else 2)"
proof -
  define processed where "processed = less_tokens sub_tokens [COMMENT]"
  define is_colon where "is_colon = (\<lambda>t::token. (fst t, fst (snd t)) = (OP, '':''))"
  have ex: "list_ex is_colon processed"
    using colon by (simp add: processed_def is_colon_def)
  have aux_eq: "aux sub_tokens =
      (case find_tok processed OP '':'' of
         Inr token_pos \<Rightarrow> 2 - (if token_pos = int (length processed) - 2 then 1 else 0)
       | Inl _ \<Rightarrow> (if less_tokens processed [NL, EM] = [] then 0 else 1))"
    unfolding aux_def processed_def Let_def by (rule refl)
  have goal: "aux sub_tokens =
     (if 2 \<le> length processed \<and> is_colon (processed ! (length processed - 2))
         \<and> \<not> is_colon (last processed) then 1 else 2)"
  proof (cases processed rule: rev_cases)
    case Nil
    with ex show ?thesis by simp
  next
    case (snoc front t)
    note outer = snoc
    show ?thesis
    proof (cases front rule: rev_cases)
      case Nil
      with outer ex have "is_colon t" by simp
      then have "find_tok ([] @ [t]) OP '':'' = Inr 0"
        unfolding find_tok_snoc by (auto simp: is_colon_def)
      with outer Nil show ?thesis
        by (simp add: aux_eq)
    next
      case (snoc pre s)
      have cond: "(2 \<le> length processed \<and> is_colon (processed ! (length processed - 2))
                    \<and> \<not> is_colon (last processed)) = (is_colon s \<and> \<not> is_colon t)"
        and len: "int (length processed) - 2 = int (length pre)"
        using outer snoc by (simp_all add: nth_append)
      show ?thesis
      proof (cases "is_colon t")
        case True
        then have "find_tok ((pre @ [s]) @ [t]) OP '':'' = Inr (int (length (pre @ [s])))"
          unfolding find_tok_snoc by (auto simp: is_colon_def)
        with outer snoc have "find_tok processed OP '':'' = Inr (int (length pre) + 1)"
          by simp
        with True show ?thesis
          by (simp add: aux_eq cond len)
      next
        case not_t: False
        then have drop_t: "find_tok ((pre @ [s]) @ [t]) OP '':'' = find_tok (pre @ [s]) OP '':''"
          unfolding find_tok_snoc [of "pre @ [s]"] by (auto simp: is_colon_def)
        show ?thesis
        proof (cases "is_colon s")
          case True
          then have "find_tok (pre @ [s]) OP '':'' = Inr (int (length pre))"
            unfolding find_tok_snoc by (auto simp: is_colon_def)
          with drop_t outer snoc have "find_tok processed OP '':'' = Inr (int (length pre))"
            by simp
          with True not_t show ?thesis
            by (simp add: aux_eq cond len)
        next
          case not_s: False
          then have drop_s: "find_tok (pre @ [s]) OP '':'' = find_tok pre OP '':''"
            unfolding find_tok_snoc by (auto simp: is_colon_def)
          from not_t not_s ex outer snoc have "list_ex is_colon pre" by simp
          then obtain p where p: "find_tok pre OP '':'' = Inr p"
            using find_tok_found [of OP "'':''" pre] by (auto simp: is_colon_def)
          from find_tok_range [OF p] have "p \<noteq> int (length pre)" by simp
          moreover from p drop_s drop_t outer snoc
          have "find_tok processed OP '':'' = Inr p" by simp
          ultimately show ?thesis using not_s
            by (simp add: aux_eq cond len)
        qed
      qed
    qed
  qed
  then show ?thesis by (simp add: processed_def is_colon_def)
qed

lemma split_loop_no_separator:
  assumes "\<not> list_ex (\<lambda>t. (fst t, fst (snd t)) = (token, value)) tokens" and "res \<noteq> []"
  shows "split_loop res tokens token value = butlast res @ [last res @ tokens]"
  using assms by (induction tokens arbitrary: res) auto

lemma split_tokens_no_separator:
  assumes "\<not> list_ex (\<lambda>t. (fst t, fst (snd t)) = (token, value)) tokens"
  shows "split_tokens tokens token value = [tokens]"
  using split_loop_no_separator [OF assms, of "[[]]"] by (simp add: split_tokens_def)

lemma logical_segment:
  assumes "\<not> list_ex (\<lambda>t. (fst t, fst (snd t)) = (OP, '';'')) sub_tokens"
  shows "logical sub_tokens = aux sub_tokens"
  by (simp add: logical_def split_tokens_no_separator [OF assms])

text \<open>
  C5. Take a segment between semicolons whose tokens, comments removed, hold a colon
  operator. Its count of logical lines is 1 when the second to last of these tokens is a
  colon and the last is not, so that the rightmost colon has exactly one token after it,
  and 2 otherwise. With the tokens of CPython for \<^verbatim>\<open>if True: x = 1\<close>, the text
  \<^verbatim>\<open>"if True: x = 1\n"\<close> has \<open>lloc = 2\<close> and \<open>sloc = 1\<close>.
\<close>

theorem logical_colon_rule:
  assumes colon: "list_ex colon_token (less_tokens sub_tokens [COMMENT])"
    and segment: "\<not> list_ex separator_token sub_tokens"
    and tokens: "generate ''if True: x = 1'' =
      Tokens [(NAME, ''if'', (1, 0), (1, 2), ''if True: x = 1''),
              (NAME, ''True'', (1, 3), (1, 7), ''if True: x = 1''),
              (OP, '':'', (1, 7), (1, 8), ''if True: x = 1''),
              (NAME, ''x'', (1, 9), (1, 10), ''if True: x = 1''),
              (OP, ''='', (1, 11), (1, 12), ''if True: x = 1''),
              (NUMBER, ''1'', (1, 13), (1, 14), ''if True: x = 1''),
              (NEWLINE, '''', (1, 14), (1, 15), ''''),
              (ENDMARKER, '''', (2, 0), (2, 0), '''')]"
  shows "logical sub_tokens =
     (if 2 \<le> length (less_tokens sub_tokens [COMMENT])
         \<and> colon_token
              (less_tokens sub_tokens [COMMENT] ! (length (less_tokens sub_tokens [COMMENT]) - 2))
         \<and> \<not> colon_token (last (less_tokens sub_tokens [COMMENT]))
      then 1 else 2)
    \<and> aux sub_tokens = logical sub_tokens
    \<and> analyze generate ''if True: x = 1\<newline>''
        = Inr \<lparr>loc = 1, lloc = 2, sloc = 1, comments = 0, multi = 0, blank = 0,
               single_comments = 0\<rparr>"
proof -
  have lines: "map strip (splitlines ''if True: x = 1\<newline>'') = [''if True: x = 1'']"
    by code_simp
  have run: "analyze generate ''if True: x = 1\<newline>''
        = Inr \<lparr>loc = 1, lloc = 2, sloc = 1, comments = 0, multi = 0, blank = 0,
               single_comments = 0\<rparr>"
    unfolding analyze_def lines using tokens
    by (simp add: classify_def count_docstring_def split_tokens_def logical_def aux_def
        find_tok_def)
  have colon': "list_ex (\<lambda>t. (fst t, fst (snd t)) = (OP, '':''))
                  (less_tokens sub_tokens [COMMENT])"
    using colon by (simp add: colon_token_def [abs_def])
  have segment': "\<not> list_ex (\<lambda>t. (fst t, fst (snd t)) = (OP, '';'')) sub_tokens"
    using segment by (simp add: separator_token_def [abs_def])
  show ?thesis
    using aux_colon [OF colon'] logical_segment [OF segment'] run
    by (simp add: colon_token_def)
qed

theorem logical_colon_rule_witness:
  "logical [(NAME, ''if'', (1, 0), (1, 2), ''if True:''),
            (NAME, ''True'', (1, 3), (1, 7), ''if True:''),
            (OP, '':'', (1, 7), (1, 8), ''if True:''),
            (ENDMARKER, '''', (2, 0), (2, 0), '''')] = 1
   \<and> analyze tokenize_table ''if True: x = 1\<newline>''
        = Inr \<lparr>loc = 1, lloc = 2, sloc = 1, comments = 0, multi = 0, blank = 0,
               single_comments = 0\<rparr>"
  using logical_colon_rule [of "[(NAME, ''if'', (1, 0), (1, 2), ''if True:''),
            (NAME, ''True'', (1, 3), (1, 7), ''if True:''),
            (OP, '':'', (1, 7), (1, 8), ''if True:''),
            (ENDMARKER, '''', (2, 0), (2, 0), '''')]" tokenize_table]
  by (simp add: tokenize_table_def colon_token_def separator_token_def)

subsection \<open>A comment line\<close>




subsection \<open>A string over three lines\<close>

text \<open>
  C7, as the claim has it: the unit of a triple-quoted string over three lines adds 0 to
  \<open>lloc\<close>. The string token is neither a comment, a non-logical newline nor the end
  marker, so the unit counts as one logical line.
\<close>

theorem docstring_logical_line:
  \<open>analyze tokenize_table ''"""a\<newline>b\<newline>c"""''
     = Inr \<lparr>loc = 0, lloc = 1, sloc = 3, comments = 0, multi = 3, blank = 0,
            single_comments = 0\<rparr>
   \<and> lloc \<lparr>loc = 0, lloc = 1, sloc = 3, comments = 0, multi = 3, blank = 0,
            single_comments = 0\<rparr> \<noteq> 0\<close>
  by code_simp

text \<open>
  C7, amended. The text has three physical lines, none empty once stripped; the tokenizer
  fails on the first line and on the first two, and yields for the three of them a string
  token from row 1, column 0 to row 3, the newline and the end marker. Then
  \<^verbatim>\<open>analyze\<close> returns \<open>multi = 3\<close> and \<open>single_comments = 0\<close>, and the unit adds
  1 to \<open>lloc\<close>.
\<close>

theorem docstring_three_lines:
  assumes lines: "map strip (splitlines source) = [l1, l2, l3]"
    and nonempty: "l1 \<noteq> []" "l2 \<noteq> []" "l3 \<noteq> []"
    and open1: "generate l1 = TokenError"
    and open2: "generate (l1 @ ''\<newline>'' @ l2) = TokenError"
    and closed: "generate ((l1 @ ''\<newline>'' @ l2) @ ''\<newline>'' @ l3) =
      Tokens [(STRING, text, (1, 0), (3, col), whole),
              (NEWLINE, '''', (3, col), (3, col + 1), ''''),
              (ENDMARKER, '''', (4, 0), (4, 0), '''')]"
  shows "analyze generate source
     = Inr \<lparr>loc = 0, lloc = 1, sloc = 3, comments = 0, multi = 3, blank = 0,
            single_comments = 0\<rparr>"
  unfolding analyze_def lines
  using nonempty open1 open2 closed
  by (simp add: classify_def count_docstring_def split_tokens_def logical_def aux_def
      find_tok_def)

theorem docstring_three_lines_witness:
  \<open>analyze tokenize_table ''"""a\<newline>b\<newline>c"""''
     = Inr \<lparr>loc = 0, lloc = 1, sloc = 3, comments = 0, multi = 3, blank = 0,
            single_comments = 0\<rparr>\<close>
proof -
  have lines: \<open>map strip (splitlines ''"""a\<newline>b\<newline>c"""'') = [''"""a'', ''b'', ''c"""'']\<close>
    by code_simp
  show ?thesis
    using docstring_three_lines [OF lines, of tokenize_table]
    by (simp add: tokenize_table_def)
qed

subsection \<open>Two statements on a line\<close>



subsection \<open>The outcome is a function of the text\<close>

lemma get_all_tokens_agree:
  assumes "\<forall>buffer \<in> set (joins_from line lines). g1 buffer = g2 buffer"
  shows "get_all_tokens g1 line used_lines lines = get_all_tokens g2 line used_lines lines"
  using assms
proof (induction lines arbitrary: line used_lines)
  case Nil
  then show ?case by simp
next
  case (Cons next_line lines)
  from Cons.prems have here: "g1 line = g2 line"
    and later: "\<forall>buffer \<in> set (joins_from (line @ [CHR 0x0A] @ next_line) lines).
                  g1 buffer = g2 buffer"
    by simp_all
  from Cons.IH [OF later] here show ?case
    by (cases "g2 line") simp_all
qed

lemma get_all_tokens_suffix:
  "get_all_tokens generate line used_lines lines = Inr (tokens, parsed_lines, rest)
   \<Longrightarrow> \<exists>taken. lines = taken @ rest"
proof (induction lines arbitrary: line used_lines)
  case Nil
  then show ?case by (auto split: tokenized.splits if_splits)
next
  case (Cons next_line lines)
  show ?case
  proof (cases "\<exists>tokens. generate line = Tokens tokens
                  \<and> \<not> list_ex (\<lambda>t. fst t = ERRORTOKEN) tokens")
    case True
    with Cons.prems show ?thesis by auto
  next
    case False
    with Cons.prems have
      "get_all_tokens generate (line @ [CHR 0x0A] @ next_line) (used_lines @ [next_line]) lines
         = Inr (tokens, parsed_lines, rest)"
      by (auto split: tokenized.splits if_splits)
    from Cons.IH [OF this] obtain taken where "lines = taken @ rest" ..
    then have "next_line # lines = (next_line # taken) @ rest" by simp
    then show ?thesis ..
  qed
qed

lemma buffers_suffix: "set (buffers rest) \<subseteq> set (buffers (taken @ rest))"
  by (induction taken) auto

lemma analyze_loop_agree:
  assumes "\<forall>buffer \<in> set (buffers lines). g1 buffer = g2 buffer"
  shows "analyze_loop g1 lineno c lines = analyze_loop g2 lineno c lines"
  using assms
proof (induction g1 lineno c lines rule: analyze_loop.induct)
  case (1 generate lineno c)
  then show ?case by simp
next
  case (2 g1 lineno c line lines)
  from "2.prems" have same:
    "get_all_tokens g1 line [line] lines = get_all_tokens g2 line [line] lines"
    by (intro get_all_tokens_agree) simp
  show ?case
  proof (cases "get_all_tokens g1 line [line] lines")
    case (Inl e)
    moreover from Inl same have "get_all_tokens g2 line [line] lines = Inl e" by simp
    ultimately show ?thesis by simp
  next
    case (Inr unit)
    obtain tokens parsed_lines rest where unit: "unit = (tokens, parsed_lines, rest)"
      by (cases unit) auto
    from Inr unit have got1:
      "get_all_tokens g1 line [line] lines = Inr (tokens, parsed_lines, rest)" by simp
    with same have got2:
      "get_all_tokens g2 line [line] lines = Inr (tokens, parsed_lines, rest)" by simp
    show ?thesis
    proof (cases "classify tokens parsed_lines c")
      case (Inl e)
      with got1 got2 show ?thesis by simp
    next
      case cls: (Inr d)
      from got1 get_all_tokens_suffix obtain taken where "lines = taken @ rest"
        by blast
      with "2.prems" buffers_suffix [of rest taken]
      have "\<forall>buffer \<in> set (buffers rest). g1 buffer = g2 buffer"
        by auto
      from "2.IH" [OF got1 refl refl cls this] got1 got2 cls
      show ?thesis by simp
    qed
  qed
qed

text \<open>
  C9. A run of \<^verbatim>\<open>analyze\<close> reads nothing but its text and the replies of the
  tokenizer to the buffers it builds from the stripped lines of the text; it keeps no
  state of its own between runs. Two runs on the same text, whose tokenizers reply alike
  on these buffers, end with the same outcome: the same record or the same failure.
\<close>

theorem analyze_deterministic:
  assumes "\<forall>buffer \<in> set (buffers (map strip (splitlines source))). g1 buffer = g2 buffer"
  shows "analyze g1 source = analyze g2 source"
  by (simp add: analyze_def analyze_loop_agree [OF assms])

theorem analyze_deterministic_witness:
  "analyze tokenize_table ''# comment\<newline>\<newline>x = 1''
     = analyze (tokenize_table(''y'' := TokenError)) ''# comment\<newline>\<newline>x = 1''
   \<and> tokenize_table ''y'' \<noteq> TokenError"
proof -
  have lines: "buffers (map strip (splitlines ''# comment\<newline>\<newline>x = 1''))
    = [''# comment'', ''# comment\<newline>'', ''# comment\<newline>\<newline>x = 1'', '''',
       ''\<newline>x = 1'', ''x = 1'']"
    by code_simp
  have "analyze tokenize_table ''# comment\<newline>\<newline>x = 1''
     = analyze (tokenize_table(''y'' := TokenError)) ''# comment\<newline>\<newline>x = 1''"
    by (rule analyze_deterministic) (simp add: lines)
  then show ?thesis by (simp add: tokenize_table_def)
qed

subsection \<open>Leading and trailing whitespace\<close>

lemma dropWhile_all: "list_all P xs \<Longrightarrow> dropWhile P (xs @ ys) = dropWhile P ys"
  by (induction xs) auto

lemma dropWhile_none: "list_all P xs \<Longrightarrow> dropWhile P xs = []"
  by (induction xs) auto

lemma strip_margins:
  assumes "list_all isspace before" and "list_all isspace after"
  shows "strip (before @ core @ after) = strip core"
proof -
  have front: "dropWhile isspace (before @ core @ after) = dropWhile isspace (core @ after)"
    using assms(1) by (rule dropWhile_all)
  show ?thesis
  proof (cases "list_all isspace core")
    case True
    with assms(2) have "list_all isspace (core @ after)" by simp
    then have both: "dropWhile isspace (core @ after) = []"
      by (rule dropWhile_none)
    from True have alone: "dropWhile isspace core = []"
      by (rule dropWhile_none)
    show ?thesis by (simp only: strip_def front both alone)
  next
    case False
    then have "dropWhile isspace (core @ after) = dropWhile isspace core @ after"
      by (auto simp: list_all_iff dropWhile_append1)
    moreover have "list_all isspace (rev after)"
      using assms(2) by (simp add: list_all_iff)
    ultimately show ?thesis
      using front by (simp add: strip_def dropWhile_all)
  qed
qed

lemma strip_differ_in_margins: "differ_in_margins a b \<Longrightarrow> strip a = strip b"
  by (auto simp: differ_in_margins_def strip_margins)

lemma splitlines_from_indent:
  "splitlines_from False cur (replicate n (CHR '' '') @ s)
     = splitlines_from False (cur @ replicate n (CHR '' '')) s"
proof (induction n arbitrary: cur)
  case 0
  then show ?case by simp
next
  case (Suc n)
  have "splitlines_from False cur (replicate (Suc n) (CHR '' '') @ s)
      = splitlines_from False (cur @ [CHR '' '']) (replicate n (CHR '' '') @ s)"
    by (simp add: is_linebreak_def)
  also have "\<dots> = splitlines_from False ((cur @ [CHR '' '']) @ replicate n (CHR '' '')) s"
    by (rule Suc.IH)
  also have "(cur @ [CHR '' '']) @ replicate n (CHR '' '') = cur @ replicate (Suc n) (CHR '' '')"
    by simp
  finally show ?case .
qed

lemma indented_comment_lines:
  "map strip (splitlines (replicate n (CHR '' '') @ ''# comment\<newline>'')) = [''# comment'']"
proof -
  have "splitlines (replicate n (CHR '' '') @ ''# comment\<newline>'')
      = [replicate n (CHR '' '') @ ''# comment'']"
    by (simp add: splitlines_def splitlines_from_indent is_linebreak_def)
  moreover have "strip (replicate n (CHR '' '') @ ''# comment'' @ []) = strip ''# comment''"
    by (rule strip_margins) (simp_all add: list_all_iff isspace_def)
  moreover have "strip ''# comment'' = ''# comment''"
    by code_simp
  ultimately show ?thesis by simp
qed

text \<open>
  C10. \<^verbatim>\<open>analyze\<close> strips every physical line before it tokenizes. Two texts with
  the same number of physical lines, whose lines differ one by one only in leading and
  trailing whitespace, have the same outcome. A comment line indented by any number of
  spaces has the outcome of the same line without the indentation.
\<close>

theorem analyze_ignores_margins:
  assumes "list_all2 differ_in_margins (splitlines source) (splitlines source')"
  shows "analyze generate source = analyze generate source'
    \<and> analyze generate (replicate n (CHR '' '') @ ''# comment\<newline>'')
        = analyze generate ''# comment\<newline>''"
proof -
  from assms have "list_all2 (\<lambda>a b. strip a = strip b) (splitlines source) (splitlines source')"
    by (rule list_all2_mono) (rule strip_differ_in_margins)
  then have "map strip (splitlines source) = map strip (splitlines source')"
    by (induction rule: list_all2_induct) simp_all
  moreover have "map strip (splitlines ''# comment\<newline>'') = [''# comment'']"
    by code_simp
  ultimately show ?thesis
    by (simp add: analyze_def indented_comment_lines)
qed

theorem analyze_ignores_margins_witness:
  "analyze tokenize_table ''  # comment \<newline>\<newline>x = 1  ''
     = analyze tokenize_table ''# comment\<newline>    \<newline>  x = 1''
   \<and> analyze tokenize_table ''# comment\<newline>    \<newline>  x = 1''
     = Inr \<lparr>loc = 1, lloc = 1, sloc = 2, comments = 1, multi = 0, blank = 1,
            single_comments = 1\<rparr>
   \<and> analyze tokenize_table (replicate 4 (CHR '' '') @ ''# comment\<newline>'')
     = Inr \<lparr>loc = 0, lloc = 0, sloc = 1, comments = 1, multi = 0, blank = 0,
            single_comments = 1\<rparr>"
proof -
  have l1: "splitlines ''  # comment \<newline>\<newline>x = 1  '' = [''  # comment '', '''', ''x = 1  '']"
    and l2: "splitlines ''# comment\<newline>    \<newline>  x = 1'' = [''# comment'', ''    '', ''  x = 1'']"
    by code_simp+
  have d1: "differ_in_margins ''  # comment '' ''# comment''"
    unfolding differ_in_margins_def
    by (rule exI [of _ "''# comment''"], rule exI [of _ "''  ''"], rule exI [of _ "'' ''"],
        rule exI [of _ "''''"], rule exI [of _ "''''"]) (simp add: isspace_def)
  have d2: "differ_in_margins '''' ''    ''"
    unfolding differ_in_margins_def
    by (rule exI [of _ "''''"], rule exI [of _ "''''"], rule exI [of _ "''''"],
        rule exI [of _ "''    ''"], rule exI [of _ "''''"]) (simp add: isspace_def)
  have d3: "differ_in_margins ''x = 1  '' ''  x = 1''"
    unfolding differ_in_margins_def
    by (rule exI [of _ "''x = 1''"], rule exI [of _ "''''"], rule exI [of _ "''  ''"],
        rule exI [of _ "''  ''"], rule exI [of _ "''''"]) (simp add: isspace_def)
  have hyp: "list_all2 differ_in_margins (splitlines ''  # comment \<newline>\<newline>x = 1  '')
      (splitlines ''# comment\<newline>    \<newline>  x = 1'')"
    unfolding l1 l2 using d1 d2 d3 by simp
  have run: "analyze tokenize_table ''# comment\<newline>    \<newline>  x = 1''
     = Inr \<lparr>loc = 1, lloc = 1, sloc = 2, comments = 1, multi = 0, blank = 1,
            single_comments = 1\<rparr>"
    and run': "analyze tokenize_table ''# comment\<newline>''
     = Inr \<lparr>loc = 0, lloc = 0, sloc = 1, comments = 1, multi = 0, blank = 0,
            single_comments = 1\<rparr>"
    by code_simp+
  from analyze_ignores_margins [OF hyp, of tokenize_table 4] run run'
  show ?thesis by simp
qed

end
